theory Spec2Isabelle
  imports Main
begin

section \<open>Go calls: a result or a panic, over an explicit state\<close>

text \<open>
  A Go function that returns a value of type \<open>'a\<close> is a state transformer that either
  returns (\<open>Inr\<close>) or panics (\<open>Inl\<close>); the state it leaves is kept in both cases, so
  that what a deferred call did is visible after a panic too. The functions of the package
  have no loop but the bounded one of \<^verbatim>\<open>Then\<close>; a constructor or handler of the caller
  that never returns is outside this model.
\<close>

datatype panic = NilDereference | IndexOutOfRange | SliceBoundsOutOfRange | Raised string

type_synonym ('a, 's) go = "'s \<Rightarrow> (panic + 'a) \<times> 's"

definition go_return :: "'a \<Rightarrow> ('a, 's) go" where
  "go_return a = (\<lambda>s. (Inr a, s))"

definition go_panic :: "panic \<Rightarrow> ('a, 's) go" where
  "go_panic p = (\<lambda>s. (Inl p, s))"

definition go_bind :: "('a, 's) go \<Rightarrow> ('a \<Rightarrow> ('b, 's) go) \<Rightarrow> ('b, 's) go" where
  "go_bind m f = (\<lambda>s. case m s of (Inl p, s') \<Rightarrow> (Inl p, s') | (Inr a, s') \<Rightarrow> f a s')"

text \<open>
  \<^verbatim>\<open>defer cleanup()\<close>: the deferred call runs when the body returns and when it
  panics, and the panic (if any) goes on to the caller.
\<close>

definition go_defer :: "('s \<Rightarrow> 's) \<Rightarrow> ('a, 's) go \<Rightarrow> ('a, 's) go" where
  "go_defer cleanup body = (\<lambda>s. case body s of (res, s') \<Rightarrow> (res, cleanup s'))"

text \<open>Calling a func value: a nil func panics.\<close>

definition call_func :: "('a \<Rightarrow> ('b, 's) go) option \<Rightarrow> 'a \<Rightarrow> ('b, 's) go" where
  "call_func f a = (case f of None \<Rightarrow> go_panic NilDereference | Some g \<Rightarrow> g a)"

section \<open>The context package (the part \<^verbatim>\<open>createRootHandler\<close> uses)\<close>

text \<open>
  A context is the background context, a cancellable child (identified by the number it
  was allocated under) or a child carrying one key/value pair. Whether a cancellable
  context has been cancelled is mutable state: it lives in the world.
\<close>

datatype Context = Background | cancelCtx nat Context | valueCtx Context string string

record 'x world =
  next_ctx :: nat
  canceled :: "nat \<Rightarrow> bool"
  env :: 'x

fun Value :: "Context \<Rightarrow> string \<Rightarrow> string option" where
  "Value Background k = None"
| "Value (cancelCtx i parent) k = Value parent k"
| "Value (valueCtx parent k' v) k = (if k = k' then Some v else Value parent k)"

text \<open>\<^verbatim>\<open>ctx.Err() != nil\<close>: the context or one of its ancestors has been cancelled.\<close>

fun is_canceled :: "'x world \<Rightarrow> Context \<Rightarrow> bool" where
  "is_canceled s Background = False"
| "is_canceled s (cancelCtx i parent) = (canceled s i \<or> is_canceled s parent)"
| "is_canceled s (valueCtx parent k v) = is_canceled s parent"

definition cancel :: "nat \<Rightarrow> 'x world \<Rightarrow> 'x world" where
  "cancel i s = s\<lparr>canceled := (canceled s)(i := True)\<rparr>"

definition WithCancel :: "Context \<Rightarrow> 'x world \<Rightarrow> (Context \<times> ('x world \<Rightarrow> 'x world)) \<times> 'x world" where
  "WithCancel parent s =
     ((cancelCtx (next_ctx s) parent, cancel (next_ctx s)),
      s\<lparr>next_ctx := Suc (next_ctx s), canceled := (canceled s)(next_ctx s := False)\<rparr>)"

definition WithValue :: "Context \<Rightarrow> string \<Rightarrow> string \<Rightarrow> Context" where
  "WithValue parent k v = valueCtx parent k v"

section \<open>Handlers\<close>

text \<open>
  \<open>'w\<close> is \<^verbatim>\<open>http.ResponseWriter\<close>, \<open>'r\<close> is \<^verbatim>\<open>*http.Request\<close>: the package only
  passes them on. An interface value is nil or holds a value whose method behaves as given;
  a func value is nil or a function.
\<close>

type_synonym ('w, 'r, 'x) serve = "Context \<Rightarrow> 'w \<Rightarrow> 'r \<Rightarrow> (unit, 'x world) go"

type_synonym ('w, 'r, 'x) http_serve = "'w \<Rightarrow> 'r \<Rightarrow> (unit, 'x world) go"

datatype ('w, 'r, 'x) Handler = Handler_nil | Handler "('w, 'r, 'x) serve"

datatype ('w, 'r, 'x) HandlerFunc = HandlerFunc_nil | HandlerFunc "('w, 'r, 'x) serve"

datatype ('w, 'r, 'x) http_Handler = http_Handler_nil | http_Handler "('w, 'r, 'x) http_serve"

text \<open>\<^verbatim>\<open>h.ServeHTTP(ctx, w, r)\<close> on an interface value.\<close>

fun Handler_ServeHTTP :: "('w, 'r, 'x) Handler \<Rightarrow> ('w, 'r, 'x) serve" where
  "Handler_ServeHTTP Handler_nil ctx w r = go_panic NilDereference"
| "Handler_ServeHTTP (Handler m) ctx w r = m ctx w r"

fun http_ServeHTTP :: "('w, 'r, 'x) http_Handler \<Rightarrow> ('w, 'r, 'x) http_serve" where
  "http_ServeHTTP http_Handler_nil w r = go_panic NilDereference"
| "http_ServeHTTP (http_Handler m) w r = m w r"

text \<open>\<^verbatim>\<open>func (f HandlerFunc) ServeHTTP(ctx, w, r) { f(ctx, w, r) }\<close>\<close>

fun HandlerFunc_ServeHTTP :: "('w, 'r, 'x) HandlerFunc \<Rightarrow> ('w, 'r, 'x) serve" where
  "HandlerFunc_ServeHTTP HandlerFunc_nil ctx w r = go_panic NilDereference"
| "HandlerFunc_ServeHTTP (HandlerFunc f) ctx w r = f ctx w r"

text \<open>
  A \<^verbatim>\<open>HandlerFunc\<close> used where a \<^verbatim>\<open>Handler\<close> is expected: the interface value is
  never nil, also when the func is.
\<close>

definition as_Handler :: "('w, 'r, 'x) HandlerFunc \<Rightarrow> ('w, 'r, 'x) Handler" where
  "as_Handler f = Handler (HandlerFunc_ServeHTTP f)"

definition createRootHandler :: "('w, 'r, 'x) Handler \<Rightarrow> ('w, 'r, 'x) http_Handler" where
  "createRootHandler h = http_Handler (\<lambda>w r s.
     (case WithCancel Background s of
        ((ctx, cancel_fn), s1) \<Rightarrow> go_defer cancel_fn (Handler_ServeHTTP h ctx w r) s1))"

definition adaptFinal :: "('w, 'r, 'x) http_Handler \<Rightarrow> ('w, 'r, 'x) Handler" where
  "adaptFinal h = as_Handler (HandlerFunc (\<lambda>_ w r. http_ServeHTTP h w r))"

section \<open>Slices in a store\<close>

text \<open>
  A slice is nil or a window (array, offset, length, capacity) on a backing array; the
  arrays live in a store, so that two slices on one array see each other's writes. The
  elements are nilable (\<open>None\<close> is the zero value, a nil func).
\<close>

datatype slice = Slice_nil | Slice nat nat nat nat

fun len :: "slice \<Rightarrow> nat" where
  "len Slice_nil = 0"
| "len (Slice a off l c) = l"

fun cap :: "slice \<Rightarrow> nat" where
  "cap Slice_nil = 0"
| "cap (Slice a off l c) = c"

record 'a heap =
  cells :: "nat \<Rightarrow> nat \<Rightarrow> 'a option"
  next_arr :: nat
  growth :: "nat \<Rightarrow> nat"

text \<open>The elements of a slice, read out of the store.\<close>

fun elems :: "'a heap \<Rightarrow> slice \<Rightarrow> 'a option list" where
  "elems h Slice_nil = []"
| "elems h (Slice a off l c) = map (\<lambda>i. cells h a (off + i)) [0..<l]"

text \<open>The storage a slice can reach: the cells of its array within its capacity.\<close>

fun storage :: "slice \<Rightarrow> (nat \<times> nat) set" where
  "storage Slice_nil = {}"
| "storage (Slice a off l c) = {a} \<times> {off..<off + c}"

text \<open>A new array holding \<open>vs\<close>, zero beyond.\<close>

definition alloc :: "'a heap \<Rightarrow> 'a option list \<Rightarrow> nat \<times> 'a heap" where
  "alloc h vs =
     (next_arr h,
      h\<lparr>cells := (cells h)(next_arr h := (\<lambda>j. if j < length vs then vs ! j else None)),
        next_arr := Suc (next_arr h)\<rparr>)"

text \<open>Writing \<open>vs\<close> into array \<open>a\<close> from index \<open>off\<close> on.\<close>

definition store_range :: "'a heap \<Rightarrow> nat \<Rightarrow> nat \<Rightarrow> 'a option list \<Rightarrow> 'a heap" where
  "store_range h a off vs =
     h\<lparr>cells := (cells h)(a := (\<lambda>j. if off \<le> j \<and> j < off + length vs then vs ! (j - off)
                                      else cells h a j))\<rparr>"

text \<open>\<^verbatim>\<open>make([]T, n)\<close>\<close>

definition make_slice :: "'a heap \<Rightarrow> nat \<Rightarrow> slice \<times> 'a heap" where
  "make_slice h n = (case alloc h [] of (a, h') \<Rightarrow> (Slice a 0 n n, h'))"

text \<open>
  \<^verbatim>\<open>copy(dst, src)\<close>: the first \<open>min (len dst) (len src)\<close> elements of \<open>src\<close>, read before
  any is written. The count Go returns is dropped, as at both call sites.
\<close>

definition copy_slice :: "'a heap \<Rightarrow> slice \<Rightarrow> slice \<Rightarrow> 'a heap" where
  "copy_slice h dst src =
     (case dst of
        Slice_nil \<Rightarrow> h
      | Slice a off l c \<Rightarrow> store_range h a off (take (min l (len src)) (elems h src)))"

text \<open>
  \<^verbatim>\<open>append(s, xs...)\<close>: in place when the capacity of \<open>s\<close> suffices, else into a new array
  of a capacity the runtime chooses (\<open>growth\<close> is what it adds to the length needed).
\<close>

definition append_slice :: "'a heap \<Rightarrow> slice \<Rightarrow> slice \<Rightarrow> slice \<times> 'a heap" where
  "append_slice h s xs =
     (let vs = elems h xs; n = len s + length vs in
      if n \<le> cap s then
        (case s of
           Slice_nil \<Rightarrow> (Slice_nil, h)
         | Slice a off l c \<Rightarrow> (Slice a off n c, store_range h a (off + l) vs))
      else
        (case alloc h (elems h s @ vs) of
           (a, h') \<Rightarrow> (Slice a 0 n (n + growth h n), h')))"

text \<open>\<^verbatim>\<open>s[k:]\<close>\<close>

definition slice_from :: "slice \<Rightarrow> nat \<Rightarrow> panic + slice" where
  "slice_from s k =
     (if k \<le> len s then
        Inr (case s of Slice_nil \<Rightarrow> Slice_nil | Slice a off l c \<Rightarrow> Slice a (off + k) (l - k) (c - k))
      else Inl SliceBoundsOutOfRange)"

text \<open>\<^verbatim>\<open>s[i]\<close>\<close>

definition index_slice :: "'a heap \<Rightarrow> slice \<Rightarrow> int \<Rightarrow> panic + 'a option" where
  "index_slice h s i =
     (if 0 \<le> i \<and> i < int (len s) then
        (case s of Slice_nil \<Rightarrow> Inl IndexOutOfRange | Slice a off l c \<Rightarrow> Inr (cells h a (off + nat i)))
      else Inl IndexOutOfRange)"

text \<open>
  The slice a call with explicit arguments \<^verbatim>\<open>f(x1, ..., xn)\<close> passes to a variadic
  parameter: nil when there is none, else a new array holding them.
\<close>

definition variadic :: "'a heap \<Rightarrow> 'a option list \<Rightarrow> slice \<times> 'a heap" where
  "variadic h vs =
     (if vs = [] then (Slice_nil, h)
      else case alloc h vs of (a, h') \<Rightarrow> (Slice a 0 (length vs) (length vs), h'))"

section \<open>Chain\<close>

type_synonym ('w, 'r, 'x) constructor_fn =
  "('w, 'r, 'x) Handler \<Rightarrow> (('w, 'r, 'x) Handler, 'x world) go"

type_synonym ('w, 'r, 'x) Constructor = "('w, 'r, 'x) constructor_fn option"

record ('w, 'r, 'x) Chain =
  constructors :: slice
  finalize :: "(('w, 'r, 'x) Handler \<Rightarrow> (('w, 'r, 'x) http_Handler, 'x world) go) option"

text \<open>
  The constructors of a chain live in the store of slices. Constructors and handlers are
  the caller's code and run on the world: the field \<^verbatim>\<open>constructors\<close> is unexported, so the
  caller's code holds no slice on a chain's backing array unless \<^verbatim>\<open>New\<close> or
  \<^verbatim>\<open>Append\<close> hands it one, and the properties of the store below say that they do not.
  The lengths are natural numbers: a sum of two lengths that overflows \<^verbatim>\<open>int\<close> would need
  more constructors than memory holds.
\<close>

definition New :: "('w, 'r, 'x) constructor_fn heap \<Rightarrow> slice \<Rightarrow>
    ('w, 'r, 'x) Chain \<times> ('w, 'r, 'x) constructor_fn heap" where
  "New hp cs =
     (let c = \<lparr>constructors = Slice_nil,
                finalize = Some (\<lambda>h. go_return (createRootHandler h))\<rparr>
      in case append_slice hp (constructors c) cs of
           (s, hp') \<Rightarrow> (c\<lparr>constructors := s\<rparr>, hp'))"

function Then_loop :: "('w, 'r, 'x) constructor_fn heap \<Rightarrow> slice \<Rightarrow> int \<Rightarrow>
    ('w, 'r, 'x) Handler \<Rightarrow> (('w, 'r, 'x) Handler, 'x world) go" where
  "Then_loop hp cs i final s =
     (if 0 \<le> i then
        (case index_slice hp cs i of
           Inl p \<Rightarrow> (Inl p, s)
         | Inr c \<Rightarrow>
             (case call_func c final s of
                (Inl p, s') \<Rightarrow> (Inl p, s')
              | (Inr final', s') \<Rightarrow> Then_loop hp cs (i - 1) final' s'))
      else (Inr final, s))"
  by pat_completeness auto
termination
  by (relation "measure (\<lambda>(hp, cs, i, final, s). nat (i + 1))") auto

text \<open>\<open>mux\<close> is \<^verbatim>\<open>http.DefaultServeMux\<close>, read when \<^verbatim>\<open>Then\<close> is called.\<close>

definition Then :: "('w, 'r, 'x) constructor_fn heap \<Rightarrow> ('w, 'r, 'x) http_Handler \<Rightarrow>
    ('w, 'r, 'x) Chain \<Rightarrow> ('w, 'r, 'x) Handler \<Rightarrow> (('w, 'r, 'x) http_Handler, 'x world) go" where
  "Then hp mux c h =
     (let final = (case h of Handler_nil \<Rightarrow> adaptFinal mux | Handler m \<Rightarrow> h)
      in go_bind (Then_loop hp (constructors c) (int (len (constructors c)) - 1) final)
           (call_func (finalize c)))"

definition ThenFunc :: "('w, 'r, 'x) constructor_fn heap \<Rightarrow> ('w, 'r, 'x) http_Handler \<Rightarrow>
    ('w, 'r, 'x) Chain \<Rightarrow> ('w, 'r, 'x) HandlerFunc \<Rightarrow> (('w, 'r, 'x) http_Handler, 'x world) go" where
  "ThenFunc hp mux c fn =
     (case fn of
        HandlerFunc_nil \<Rightarrow> Then hp mux c Handler_nil
      | HandlerFunc f \<Rightarrow> Then hp mux c (as_Handler fn))"

definition Append :: "('w, 'r, 'x) constructor_fn heap \<Rightarrow> ('w, 'r, 'x) Chain \<Rightarrow> slice \<Rightarrow>
    (panic + ('w, 'r, 'x) Chain) \<times> ('w, 'r, 'x) constructor_fn heap" where
  "Append hp c cs =
     (case make_slice hp (len (constructors c) + len cs) of
        (newCons, hp1) \<Rightarrow>
          (let hp2 = copy_slice hp1 newCons (constructors c) in
           case slice_from newCons (len (constructors c)) of
             Inl p \<Rightarrow> (Inl p, hp2)
           | Inr rest \<Rightarrow>
               (let hp3 = copy_slice hp2 rest cs in
                case New hp3 newCons of (newChain, hp4) \<Rightarrow> (Inr newChain, hp4))))"

section \<open>Properties of slices and chains\<close>

text \<open>A slice of the store: its array has been allocated and its length is within its capacity.\<close>

definition valid_slice :: "'a heap \<Rightarrow> slice \<Rightarrow> bool" where
  "valid_slice h s = (case s of Slice_nil \<Rightarrow> True | Slice a off l c \<Rightarrow> a < next_arr h \<and> l \<le> c)"

text \<open>\<^verbatim>\<open>array[j] = v\<close> on a backing array, by whoever holds a slice on it.\<close>

definition store_cell :: "'a heap \<Rightarrow> nat \<Rightarrow> nat \<Rightarrow> 'a option \<Rightarrow> 'a heap" where
  "store_cell h a j v = h\<lparr>cells := (cells h)(a := (cells h a)(j := v))\<rparr>"

text \<open>
  Composing by hand, \<^verbatim>\<open>c1(c2(...cn(h)))\<close>: Go evaluates the argument before the call,
  so the innermost constructor runs first.
\<close>

fun compose :: "('w, 'r, 'x) Constructor list \<Rightarrow> ('w, 'r, 'x) constructor_fn" where
  "compose [] h = go_return h"
| "compose (c # cs) h = go_bind (compose cs h) (call_func c)"

text \<open>The finalizer \<^verbatim>\<open>New\<close> installs: the func value \<^verbatim>\<open>createRootHandler\<close>.\<close>

definition root_finalizer ::
    "(('w, 'r, 'x) Handler \<Rightarrow> (('w, 'r, 'x) http_Handler, 'x world) go) option" where
  "root_finalizer = Some (\<lambda>h. go_return (createRootHandler h))"

section \<open>The test file's helpers, and a concrete environment\<close>

text \<open>
  A response recorder (\<^verbatim>\<open>httptest.ResponseRecorder\<close>) keeps the status, the content type
  and the body written; the world's \<open>env\<close> maps each recorder's number to its state, and a
  response writer is the number of a recorder.
\<close>

record recorder =
  Code :: nat
  ContentType :: string
  Body :: string

definition NewRecorder :: recorder where
  "NewRecorder = \<lparr>Code = 200, ContentType = [], Body = []\<rparr>"

definition Write :: "nat \<Rightarrow> string \<Rightarrow> (unit, (nat \<Rightarrow> recorder) world) go" where
  "Write w bytes = (\<lambda>s. (Inr (), s\<lparr>env := (env s)(w := (env s w)\<lparr>Body := Body (env s w) @ bytes\<rparr>)\<rparr>))"

text \<open>\<^verbatim>\<open>existingTag, _ := ctx.Value("tag").(string)\<close>\<close>

definition existingTag :: "Context \<Rightarrow> string" where
  "existingTag ctx = (case Value ctx ''tag'' of None \<Rightarrow> [] | Some v \<Rightarrow> v)"

definition tagMiddleware :: "string \<Rightarrow> (nat, 'r, nat \<Rightarrow> recorder) Constructor" where
  "tagMiddleware tag = Some (\<lambda>h. go_return (as_Handler (HandlerFunc (\<lambda>ctx w r.
     Handler_ServeHTTP h (WithValue ctx ''tag'' (existingTag ctx @ tag)) w r))))"

definition testApp :: "(nat, 'r, nat \<Rightarrow> recorder) HandlerFunc" where
  "testApp = HandlerFunc (\<lambda>ctx w r. Write w (existingTag ctx @ ''app'' @ [CHR 0x0A]))"

text \<open>A store with no array, a world with no context and fresh recorders.\<close>

definition heap0 :: "'a heap" where
  "heap0 = \<lparr>cells = (\<lambda>a j. None), next_arr = 0, growth = (\<lambda>n. 0)\<rparr>"

definition world0 :: "(nat \<Rightarrow> recorder) world" where
  "world0 = \<lparr>next_ctx = 0, canceled = (\<lambda>i. False), env = (\<lambda>w. NewRecorder)\<rparr>"

text \<open>
  \<^verbatim>\<open>http.DefaultServeMux\<close> with no route registered: every request is answered by
  \<^verbatim>\<open>http.NotFound\<close>.
\<close>

definition emptyServeMux :: "(nat, 'r, nat \<Rightarrow> recorder) http_Handler" where
  "emptyServeMux = http_Handler (\<lambda>w r s.
     (Inr (), s\<lparr>env := (env s)(w := \<lparr>Code = 404, ContentType = ''text/plain; charset=utf-8'',
        Body = Body (env s w) @ ''404 page not found'' @ [CHR 0x0A]\<rparr>)\<rparr>))"

text \<open>The zero value \<^verbatim>\<open>Chain{}\<close>.\<close>

definition zero_Chain :: "('w, 'r, 'x) Chain" where
  "zero_Chain = \<lparr>constructors = Slice_nil, finalize = None\<rparr>"

text \<open>
  The chains of \<^verbatim>\<open>TestAppendRespectsImmutability\<close>:
  \<^verbatim>\<open>chain := New(tagMiddleware(""))\<close>, then the argument of
  \<^verbatim>\<open>chain.Append(tagMiddleware(""))\<close>, each with the store it leaves.
\<close>

definition test_chain ::
    "(nat, unit, nat \<Rightarrow> recorder) Chain \<times> (nat, unit, nat \<Rightarrow> recorder) constructor_fn heap" where
  "test_chain = (case variadic heap0 [tagMiddleware []] of (s, h) \<Rightarrow> New h s)"

definition test_arg :: "slice \<times> (nat, unit, nat \<Rightarrow> recorder) constructor_fn heap" where
  "test_arg = variadic (snd test_chain) [tagMiddleware []]"

section \<open>Lemmas\<close>

subsection \<open>Calls in sequence\<close>

text \<open>The laws of sequencing, and composing by hand over a list that is split in two.\<close>

lemma go_bind_return [simp]: "go_bind (go_return a) f = f a"
  by (simp add: go_bind_def go_return_def)

lemma go_bind_return2 [simp]: "go_bind m go_return = m"
  by (auto simp: go_bind_def go_return_def fun_eq_iff split: prod.splits sum.splits)

lemma go_bind_assoc: "go_bind (go_bind m f) g = go_bind m (\<lambda>a. go_bind (f a) g)"
  by (auto simp: go_bind_def fun_eq_iff split: prod.splits sum.splits)

lemma compose_append: "compose (ys @ zs) h = go_bind (compose zs h) (compose ys)"
proof (induction ys arbitrary: h)
  case Nil
  have "compose [] = go_return" by (rule ext) simp
  then show ?case by simp
next
  case (Cons a ys)
  have "compose (a # ys) = (\<lambda>h'. go_bind (compose ys h') (call_func a))" by (rule ext) simp
  then show ?case by (simp add: Cons.IH go_bind_assoc)
qed

subsection \<open>The loop of Then\<close>

text \<open>The descending loop over the indices of a slice is the composition by hand of its elements.\<close>

lemma length_elems [simp]: "length (elems hp s) = len s"
  by (cases s) simp_all

lemma take_len_elems: "take (len s) (elems hp s) = elems hp s"
  by simp

lemma index_slice_elems:
  assumes "0 \<le> i" "i < int (len s)"
  shows "index_slice hp s i = Inr (elems hp s ! nat i)"
proof (cases s)
  case Slice_nil
  then show ?thesis using assms by simp
next
  case (Slice a off l c)
  with assms have "nat i < l" by simp
  with Slice assms show ?thesis by (simp add: index_slice_def)
qed

lemma Then_loop_compose:
  "i < int (len s) \<Longrightarrow> -1 \<le> i \<Longrightarrow> Then_loop hp s i final = compose (take (nat (i + 1)) (elems hp s)) final"
proof (induction "nat (i + 1)" arbitrary: i final)
  case 0
  then have "i = -1" by simp
  then show ?case by (simp add: fun_eq_iff go_return_def)
next
  case (Suc k)
  then have i: "0 \<le> i" "nat (i + 1) = Suc (nat i)" "k = nat (i - 1 + 1)" by simp_all
  have idx: "index_slice hp s i = Inr (elems hp s ! nat i)"
    using i Suc.prems by (simp add: index_slice_elems)
  have tk: "take (Suc (nat i)) (elems hp s) = take (nat i) (elems hp s) @ [elems hp s ! nat i]"
    using Suc.prems i by (simp add: take_Suc_conv_app_nth)
  have IH: "\<And>f. Then_loop hp s (i - 1) f = compose (take (nat i) (elems hp s)) f"
    using Suc.hyps(1)[of "i - 1"] Suc.prems i by simp
  have one: "\<And>c h. compose [c] h = call_func c h" by simp
  show ?case
  proof (rule ext)
    fix st
    show "Then_loop hp s i final st = compose (take (nat (i + 1)) (elems hp s)) final st"
      unfolding i(2) tk compose_append one
      by (subst Then_loop.simps) (simp add: idx i IH go_bind_def split: prod.splits sum.splits)
  qed
qed

lemma Then_eq_compose:
  "Then hp mux c h =
     go_bind (compose (elems hp (constructors c)) (case h of Handler_nil \<Rightarrow> adaptFinal mux | Handler m \<Rightarrow> h))
       (call_func (finalize c))"
proof -
  have "nat (int (len (constructors c)) - 1 + 1) = len (constructors c)" by simp
  then show ?thesis
    by (simp add: Then_def Then_loop_compose take_len_elems Let_def)
qed

lemma call_root_finalizer: "call_func root_finalizer = (\<lambda>h. go_return (createRootHandler h))"
  by (rule ext) (simp add: call_func_def root_finalizer_def)

subsection \<open>The root handler on a request\<close>

text \<open>What the handler made by \<^verbatim>\<open>createRootHandler\<close> does with a request, in general and on the two handlers at the bottom of an empty chain.\<close>

lemma serve_root:
  "http_ServeHTTP (createRootHandler h) w r s =
     go_defer (cancel (next_ctx s)) (Handler_ServeHTTP h (cancelCtx (next_ctx s) Background) w r)
       (s\<lparr>next_ctx := Suc (next_ctx s), canceled := (canceled s)(next_ctx s := False)\<rparr>)"
  by (simp add: createRootHandler_def WithCancel_def)

lemma serve_default_mux:
  "http_ServeHTTP (createRootHandler (adaptFinal emptyServeMux)) (0::nat) () world0 =
     (Inr (), \<lparr>next_ctx = 1, canceled = (\<lambda>i. False)(0 := True),
        env = (\<lambda>w. NewRecorder)(0 := \<lparr>Code = 404, ContentType = ''text/plain; charset=utf-8'',
          Body = ''404 page not found\<newline>''\<rparr>)\<rparr>)"
  by (simp add: serve_root go_defer_def adaptFinal_def as_Handler_def emptyServeMux_def
      world0_def cancel_def NewRecorder_def)

lemma serve_nil:
  "fst (http_ServeHTTP (createRootHandler Handler_nil) w r s) = Inl NilDereference"
  by (simp add: serve_root go_defer_def go_panic_def)

subsection \<open>Slices after a change of the store\<close>

text \<open>A slice reads the same elements as long as its own cells are not written: arrays are never freed, and a new array has a new number.\<close>

lemma elems_frame:
  assumes "valid_slice h s" and "\<And>a. a < next_arr h \<Longrightarrow> cells h' a = cells h a"
  shows "elems h' s = elems h s"
  using assms by (cases s) (simp_all add: valid_slice_def)

lemma valid_slice_mono:
  "valid_slice h s \<Longrightarrow> next_arr h \<le> next_arr h' \<Longrightarrow> valid_slice h' s"
  by (cases s) (simp_all add: valid_slice_def)

lemma storage_valid_allocated:
  "valid_slice h s \<Longrightarrow> (a, j) \<in> storage s \<Longrightarrow> a < next_arr h"
  by (cases s) (simp_all add: valid_slice_def)

lemma elems_storage_cong:
  assumes "valid_slice h0 s" and "\<And>a j. (a, j) \<in> storage s \<Longrightarrow> cells h' a j = cells h a j"
  shows "elems h' s = elems h s"
  using assms by (cases s) (simp_all add: valid_slice_def)

lemma cells_store_cell:
  "cells (store_cell h a j v) b i = (if b = a \<and> i = j then v else cells h b i)"
  by (simp add: store_cell_def)

lemma elems_store_cell_other:
  assumes "valid_slice h0 s" and "(a, j) \<notin> storage s"
  shows "elems (store_cell h a j v) s = elems h s"
  using assms by (intro elems_storage_cong [of h0]) (auto simp: cells_store_cell)

lemma store_cell_elsewhere:
  assumes "valid_slice hp s" and "storage t \<inter> storage s = {}"
  shows "\<forall>(a, j) \<in> storage t. \<forall>v. elems (store_cell hp a j v) s = elems hp s"
proof (intro ballI, clarify)
  fix a j v assume "(a, j) \<in> storage t"
  with assms(2) have "(a, j) \<notin> storage s" by blast
  with assms(1) show "elems (store_cell hp a j v) s = elems hp s"
    by (rule elems_store_cell_other)
qed

lemma append_slice_frame:
  assumes "valid_slice h s" "b < next_arr h" "(b, i) \<notin> storage s"
  shows "cells (snd (append_slice h s ys)) b i = cells h b i"
  using assms
  by (cases s) (auto simp: append_slice_def Let_def alloc_def store_range_def valid_slice_def)

lemma append_slice_frame_elems:
  assumes s: "valid_slice hp s" and t: "valid_slice hp t" and d: "storage t \<inter> storage s = {}"
  shows "elems (snd (append_slice hp s ys)) t = elems hp t"
proof (rule elems_storage_cong [OF t])
  fix a j assume m: "(a, j) \<in> storage t"
  have "a < next_arr hp" using t m by (rule storage_valid_allocated)
  moreover have "(a, j) \<notin> storage s" using m d by blast
  ultimately show "cells (snd (append_slice hp s ys)) a j = cells hp a j"
    using s by (intro append_slice_frame)
qed

lemma fresh_disjoint:
  assumes "valid_slice h s" and "\<And>a j. (a, j) \<in> storage t \<Longrightarrow> next_arr h \<le> a"
  shows "storage t \<inter> storage s = {}"
  using assms by (cases s) (fastforce simp: valid_slice_def)+

subsection \<open>New\<close>

text \<open>\<^verbatim>\<open>New\<close> appends to a nil slice: no constructor gives the nil slice and the store as it was, one or more give a new array.\<close>

lemma New_eq:
  "New hp cs =
     (if len cs = 0 then (\<lparr>constructors = Slice_nil, finalize = root_finalizer\<rparr>, hp)
      else (\<lparr>constructors = Slice (next_arr hp) 0 (len cs) (len cs + growth hp (len cs)),
              finalize = root_finalizer\<rparr>, snd (alloc hp (elems hp cs))))"
  by (simp add: New_def append_slice_def root_finalizer_def alloc_def Let_def)

lemma finalize_New: "finalize (fst (New hp cs)) = root_finalizer"
  by (simp add: New_eq)

lemma elems_New: "elems (snd (New hp cs)) (constructors (fst (New hp cs))) = elems hp cs"
proof (cases "len cs = 0")
  case True
  then have "elems hp cs = []" by (cases cs) simp_all
  with True show ?thesis by (simp add: New_eq)
next
  case False
  then show ?thesis
    by (simp add: New_eq) (auto simp: alloc_def intro!: nth_equalityI)
qed

lemma cells_New: "a < next_arr hp \<Longrightarrow> cells (snd (New hp cs)) a = cells hp a"
  by (simp add: New_eq alloc_def)

lemma next_arr_New: "next_arr hp \<le> next_arr (snd (New hp cs))"
  by (simp add: New_eq alloc_def)

lemma storage_New: "(a, j) \<in> storage (constructors (fst (New hp cs))) \<Longrightarrow> a = next_arr hp \<and> a < next_arr (snd (New hp cs))"
  by (simp add: New_eq alloc_def split: if_splits)

lemma valid_New: "valid_slice (snd (New hp cs)) (constructors (fst (New hp cs)))"
  by (simp add: New_eq alloc_def valid_slice_def)

lemma len_New [simp]: "len (constructors (fst (New hp cs))) = len cs"
  by (simp add: New_eq)

subsection \<open>Append\<close>

text \<open>\<^verbatim>\<open>Append\<close> never takes the panicking branch of \<^verbatim>\<open>newCons[len(c.constructors):]\<close>; it fills a made slice with the two sequences and hands it to \<^verbatim>\<open>New\<close>, which copies it once more.\<close>

lemma Append_eq:
  "Append hp c cs =
     (let n = len (constructors c) + len cs;
          a = next_arr hp;
          hp1 = snd (alloc hp []);
          hp2 = copy_slice hp1 (Slice a 0 n n) (constructors c);
          hp3 = copy_slice hp2 (Slice a (len (constructors c)) (len cs) (len cs)) cs
      in (Inr (fst (New hp3 (Slice a 0 n n))), snd (New hp3 (Slice a 0 n n))))"
  by (simp add: Append_def make_slice_def alloc_def slice_from_def Let_def split: prod.splits)

lemma Append_built:
  assumes "valid_slice hp s" "valid_slice hp cs"
  defines "n \<equiv> len s + len cs" and "a \<equiv> next_arr hp"
  defines "hp1 \<equiv> snd (alloc hp [])"
  defines "hp2 \<equiv> copy_slice hp1 (Slice a 0 n n) s"
  defines "hp3 \<equiv> copy_slice hp2 (Slice a (len s) (len cs) (len cs)) cs"
  shows "elems hp3 (Slice a 0 n n) = elems hp s @ elems hp cs"
    and "\<And>b. b < next_arr hp \<Longrightarrow> cells hp3 b = cells hp b"
    and "next_arr hp3 = Suc (next_arr hp)"
proof -
  have c1: "\<And>b. b \<noteq> a \<Longrightarrow> cells hp1 b = cells hp b" "next_arr hp1 = Suc a" "growth hp1 = growth hp"
    by (simp_all add: hp1_def alloc_def a_def)
  have e1: "elems hp1 s = elems hp s" "elems hp1 cs = elems hp cs"
    using assms(1,2) c1(1) by (auto intro!: elems_frame simp: a_def)
  have c2: "\<And>b. b \<noteq> a \<Longrightarrow> cells hp2 b = cells hp1 b" "next_arr hp2 = Suc a"
    by (simp_all add: hp2_def copy_slice_def store_range_def c1)
  have a2: "\<And>j. j < len s \<Longrightarrow> cells hp2 a j = elems hp s ! j"
    by (simp add: hp2_def copy_slice_def store_range_def e1 n_def)
  have e2: "elems hp2 cs = elems hp cs"
    using assms(2) c1(1) c2(1) e1 
    by (cases cs) (auto simp: valid_slice_def a_def)
  have c3: "\<And>b. b \<noteq> a \<Longrightarrow> cells hp3 b = cells hp2 b" "next_arr hp3 = Suc a"
    by (simp_all add: hp3_def copy_slice_def store_range_def c2)
  have a3: "\<And>j. j < len s \<Longrightarrow> cells hp3 a j = elems hp s ! j"
       "\<And>j. len s \<le> j \<Longrightarrow> j < n \<Longrightarrow> cells hp3 a j = elems hp cs ! (j - len s)"
    by (simp_all add: hp3_def copy_slice_def store_range_def e2 a2 n_def)
  show "elems hp3 (Slice a 0 n n) = elems hp s @ elems hp cs"
    by (rule nth_equalityI) (auto simp: n_def a3 nth_append)
  show "\<And>b. b < next_arr hp \<Longrightarrow> cells hp3 b = cells hp b"
    using c1 c2 c3 by (simp add: a_def)
  show "next_arr hp3 = Suc (next_arr hp)" using c3 by (simp add: a_def)
qed

lemma Append_facts:
  "\<exists>c' hp'.
      Append hp c xs = (Inr c', hp')
    \<and> finalize c' = root_finalizer
    \<and> len (constructors c') = len (constructors c) + len xs
    \<and> valid_slice hp' (constructors c')
    \<and> next_arr hp \<le> next_arr hp'
    \<and> (\<forall>b. b < next_arr hp \<longrightarrow> cells hp' b = cells hp b)
    \<and> (\<forall>a j. (a, j) \<in> storage (constructors c') \<longrightarrow> next_arr hp \<le> a \<and> a < next_arr hp')
    \<and> (valid_slice hp (constructors c) \<longrightarrow> valid_slice hp xs \<longrightarrow>
         elems hp' (constructors c') = elems hp (constructors c) @ elems hp xs)"
proof -
  define n where "n = len (constructors c) + len xs"
  define a where "a = next_arr hp"
  define hp1 where "hp1 = snd (alloc hp [])"
  define hp2 where "hp2 = copy_slice hp1 (Slice a 0 n n) (constructors c)"
  define hp3 where "hp3 = copy_slice hp2 (Slice a (len (constructors c)) (len xs) (len xs)) xs"
  let ?s = "Slice a 0 n n"
  have nx: "next_arr hp3 = Suc (next_arr hp)"
    by (simp add: hp3_def hp2_def hp1_def copy_slice_def store_range_def alloc_def)
  have fr: "\<And>b. b < next_arr hp \<Longrightarrow> cells hp3 b = cells hp b"
    by (simp add: hp3_def hp2_def hp1_def copy_slice_def store_range_def alloc_def a_def)
  have "Append hp c xs = (Inr (fst (New hp3 ?s)), snd (New hp3 ?s))"
    by (simp add: Append_eq Let_def n_def a_def hp1_def hp2_def hp3_def)
  moreover have "finalize (fst (New hp3 ?s)) = root_finalizer" by (rule finalize_New)
  moreover have "len (constructors (fst (New hp3 ?s))) = len (constructors c) + len xs"
    by (simp add: n_def)
  moreover have "valid_slice (snd (New hp3 ?s)) (constructors (fst (New hp3 ?s)))" by (rule valid_New)
  moreover have "next_arr hp \<le> next_arr (snd (New hp3 ?s))"
    using next_arr_New [of hp3 ?s] nx by simp
  moreover have "\<forall>b. b < next_arr hp \<longrightarrow> cells (snd (New hp3 ?s)) b = cells hp b"
    using nx fr by (simp add: cells_New)
  moreover have "\<forall>b j. (b, j) \<in> storage (constructors (fst (New hp3 ?s))) \<longrightarrow>
            next_arr hp \<le> b \<and> b < next_arr (snd (New hp3 ?s))"
  proof (intro allI impI)
    fix b j assume "(b, j) \<in> storage (constructors (fst (New hp3 ?s)))"
    from storage_New [OF this] nx show "next_arr hp \<le> b \<and> b < next_arr (snd (New hp3 ?s))"
      by simp
  qed
  moreover have "valid_slice hp (constructors c) \<longrightarrow> valid_slice hp xs \<longrightarrow>
       elems (snd (New hp3 ?s)) (constructors (fst (New hp3 ?s))) = elems hp (constructors c) @ elems hp xs"
    using Append_built(1) [of hp "constructors c" xs]
    by (simp add: elems_New hp3_def hp2_def hp1_def n_def a_def)
  ultimately show ?thesis by blast
qed

lemma Append_factsE:
  obtains c' hp' where
    "Append hp c xs = (Inr c', hp')"
    "finalize c' = root_finalizer"
    "len (constructors c') = len (constructors c) + len xs"
    "valid_slice hp' (constructors c')"
    "next_arr hp \<le> next_arr hp'"
    "\<And>b. b < next_arr hp \<Longrightarrow> cells hp' b = cells hp b"
    "\<And>a j. (a, j) \<in> storage (constructors c') \<Longrightarrow> next_arr hp \<le> a \<and> a < next_arr hp'"
    "valid_slice hp (constructors c) \<Longrightarrow> valid_slice hp xs \<Longrightarrow>
       elems hp' (constructors c') = elems hp (constructors c) @ elems hp xs"
proof -
  from Append_facts [of hp c xs] obtain c' hp' where
    F: "Append hp c xs = (Inr c', hp')
    \<and> finalize c' = root_finalizer
    \<and> len (constructors c') = len (constructors c) + len xs
    \<and> valid_slice hp' (constructors c')
    \<and> next_arr hp \<le> next_arr hp'
    \<and> (\<forall>b. b < next_arr hp \<longrightarrow> cells hp' b = cells hp b)
    \<and> (\<forall>a j. (a, j) \<in> storage (constructors c') \<longrightarrow> next_arr hp \<le> a \<and> a < next_arr hp')
    \<and> (valid_slice hp (constructors c) \<longrightarrow> valid_slice hp xs \<longrightarrow>
         elems hp' (constructors c') = elems hp (constructors c) @ elems hp xs)"
    by (elim exE) (rule that)
  show thesis
  proof (rule that [of c' hp'])
    show "Append hp c xs = (Inr c', hp')" using F by simp
    show "finalize c' = root_finalizer" using F by simp
    show "len (constructors c') = len (constructors c) + len xs" using F by simp
    show "valid_slice hp' (constructors c')" using F by simp
    show "next_arr hp \<le> next_arr hp'" using F by simp
    show "\<And>b. b < next_arr hp \<Longrightarrow> cells hp' b = cells hp b" using F by simp
    show "\<And>a j. (a, j) \<in> storage (constructors c') \<Longrightarrow> next_arr hp \<le> a \<and> a < next_arr hp'"
      using F by blast
    show "valid_slice hp (constructors c) \<Longrightarrow> valid_slice hp xs \<Longrightarrow>
       elems hp' (constructors c') = elems hp (constructors c) @ elems hp xs" using F by simp
  qed
qed

lemma Append_frame_elems:
  assumes vs: "valid_slice hp s"
  shows "elems (snd (Append hp d ys)) s = elems hp s"
proof (rule Append_factsE [of hp d ys])
  fix d' hp''
  assume A: "Append hp d ys = (Inr d', hp'')"
    and fr: "\<And>b. b < next_arr hp \<Longrightarrow> cells hp'' b = cells hp b"
  have "elems hp'' s = elems hp s" using vs fr by (rule elems_frame)
  then show ?thesis by (simp add: A)
qed

lemma Append_zero_Chain:
  "fst (Append hp zero_Chain Slice_nil) = Inr \<lparr>constructors = Slice_nil, finalize = root_finalizer\<rparr>"
  by (simp add: Append_eq New_eq zero_Chain_def Let_def)

subsection \<open>Then on chains with no constructor\<close>

text \<open>\<^verbatim>\<open>Then\<close> applies the finalizer to the terminal handler it resolved; the zero value \<^verbatim>\<open>Chain{}\<close> has a nil finalizer.\<close>

lemma Then_no_constructors:
  assumes "len (constructors c) = 0"
  shows "Then hp mux c h =
     call_func (finalize c) (case h of Handler_nil \<Rightarrow> adaptFinal mux | Handler m \<Rightarrow> h)"
proof -
  have "length (elems hp (constructors c)) = 0"
    using assms by (simp only: length_elems)
  then have "elems hp (constructors c) = []" by (simp only: length_0_conv)
  then show ?thesis by (simp add: Then_eq_compose)
qed

lemma Then_zero_Chain: "Then hp mux zero_Chain h = go_panic NilDereference"
  by (simp add: Then_no_constructors zero_Chain_def call_func_def)

lemma Then_empty_root:
  "Then hp mux \<lparr>constructors = Slice_nil, finalize = root_finalizer\<rparr> (Handler m)
     = go_return (createRootHandler (Handler m))"
  by (simp add: Then_no_constructors call_root_finalizer)

lemma Then_New_nothing:
  "Then (snd (New hp Slice_nil)) mux (fst (New hp Slice_nil)) h =
     go_return (createRootHandler (case h of Handler_nil \<Rightarrow> adaptFinal mux | Handler m \<Rightarrow> h))"
  by (simp add: Then_no_constructors finalize_New call_root_finalizer)

subsection \<open>The chains of the test\<close>

text \<open>The slices and the cells that \<^verbatim>\<open>test_chain\<close> and \<^verbatim>\<open>test_arg\<close> evaluate to.\<close>

lemma test_chain_eval:
  "constructors (fst test_chain) = Slice 1 0 1 1"
  "finalize (fst test_chain) = root_finalizer"
  "next_arr (snd test_chain) = 2"
  "cells (snd test_chain) (Suc 0) 0 = tagMiddleware []"
  by (simp_all add: test_chain_def variadic_def alloc_def New_eq heap0_def)

lemma test_arg_eval:
  "fst test_arg = Slice 2 0 1 1"
  "next_arr (snd test_arg) = 3"
  "cells (snd test_arg) 2 0 = tagMiddleware []"
  "cells (snd test_arg) (Suc 0) 0 = tagMiddleware []"
  using test_chain_eval
  by (simp_all add: test_arg_def variadic_def alloc_def)

section \<open>The claims\<close>

subsection \<open>Composition order (C1)\<close>

text \<open>
  Claim C1. For every constructor sequence and every non-nil terminal handler,
  \<^verbatim>\<open>New(c1, ..., cn).Then(h)\<close> is the root boundary around \<^verbatim>\<open>c1(c2(...cn(h)))\<close>: the first
  constructor is the outermost wrapper, the last the innermost. Stated for a call with
  explicit arguments and for a call that passes a slice; a panic of a constructor, and
  what the constructors did to the world, are the same on both sides.
\<close>

theorem Then_New_composes:
  "(case variadic hp cs of (s, hp1) \<Rightarrow> case New hp1 s of (c, hp2) \<Rightarrow>
      Then hp2 mux c (Handler m) =
        go_bind (compose cs (Handler m)) (\<lambda>f. go_return (createRootHandler f)))
   \<and> (case New hp s of (c, hp') \<Rightarrow>
      Then hp' mux c (Handler m) =
        go_bind (compose (elems hp s) (Handler m)) (\<lambda>f. go_return (createRootHandler f)))"
proof -
  have gen: "\<And>hp s. Then (snd (New hp s)) mux (fst (New hp s)) (Handler m) =
        go_bind (compose (elems hp s) (Handler m)) (\<lambda>f. go_return (createRootHandler f))"
    by (simp add: Then_eq_compose elems_New finalize_New call_root_finalizer)
  have var: "elems (snd (variadic hp cs)) (fst (variadic hp cs)) = cs"
    by (auto simp: variadic_def alloc_def intro!: nth_equalityI)
  show ?thesis
    using gen [of hp s] gen [of "snd (variadic hp cs)" "fst (variadic hp cs)"] var
    by (simp add: split_beta)
qed

text \<open>
  \<^verbatim>\<open>TestThenOrdersHandlersRight\<close>: the tags come out in the order of the chain, before
  the terminal handler's output.
\<close>

theorem Then_New_composes_witness: "(case variadic heap0 [tagMiddleware ''t1\<newline>'', tagMiddleware ''t2\<newline>'', tagMiddleware ''t3\<newline>''] of
     (s, hp1) \<Rightarrow> case New hp1 s of (c, hp2) \<Rightarrow>
       (case Then hp2 emptyServeMux c (as_Handler testApp) world0 of
          (Inr f, s') \<Rightarrow> Body (env (snd (http_ServeHTTP f 0 () s')) 0)))
   = ''t1\<newline>t2\<newline>t3\<newline>app\<newline>''"
proof -
  define cs :: "(nat, unit, nat \<Rightarrow> recorder) Constructor list"
    where "cs = [tagMiddleware ''t1\<newline>'', tagMiddleware ''t2\<newline>'', tagMiddleware ''t3\<newline>'']"
  have "Then (snd (New (snd (variadic heap0 cs)) (fst (variadic heap0 cs)))) emptyServeMux
          (fst (New (snd (variadic heap0 cs)) (fst (variadic heap0 cs)))) (as_Handler testApp) world0
        = go_bind (compose cs (as_Handler testApp)) (\<lambda>f. go_return (createRootHandler f)) world0"
    using Then_New_composes [where hp=heap0 and cs=cs and mux=emptyServeMux and m="HandlerFunc_ServeHTTP testApp"]
    by (simp add: split_beta as_Handler_def)
  then show ?thesis
    unfolding cs_def [symmetric]
    by (simp add: split_beta cs_def go_bind_def go_return_def call_func_def tagMiddleware_def as_Handler_def testApp_def
     createRootHandler_def WithCancel_def go_defer_def world0_def Write_def existingTag_def WithValue_def NewRecorder_def cancel_def)
qed

subsection \<open>The root boundary cancels the context (C2)\<close>

text \<open>
  Claim C2. For every request, the handler made by the root boundary creates a new
  cancellable child of the background context (not cancelled when the wrapped handler
  starts), calls the wrapped handler with that context, the response writer and the request,
  ends as the wrapped handler ends (return or panic), and leaves the context cancelled
  whichever way the wrapped handler ended.
\<close>

theorem createRootHandler_cancels:
  "(let ctx = cancelCtx (next_ctx s) Background;
        s1 = snd (WithCancel Background s);
        run = Handler_ServeHTTP h ctx w r s1;
        served = http_ServeHTTP (createRootHandler h) w r s
    in fst (fst (WithCancel Background s)) = ctx
       \<and> next_ctx s1 = Suc (next_ctx s)
       \<and> \<not> is_canceled s1 ctx
       \<and> fst served = fst run
       \<and> snd served = cancel (next_ctx s) (snd run)
       \<and> is_canceled (snd served) ctx)"
  by (simp add: serve_root go_defer_def WithCancel_def cancel_def Let_def split_beta)

text \<open>
  Both exit paths on concrete handlers: one that panics, and the test file's application.
\<close>

theorem createRootHandler_cancels_on_panic:
  "fst (http_ServeHTTP (createRootHandler (Handler (\<lambda>ctx w r. go_panic (Raised ''boom'')))) (0::nat) () world0)
     = Inl (Raised ''boom'')
   \<and> is_canceled (snd (http_ServeHTTP (createRootHandler (Handler (\<lambda>ctx w r. go_panic (Raised ''boom'')))) (0::nat) () world0))
        (cancelCtx 0 Background)
   \<and> fst (http_ServeHTTP (createRootHandler (as_Handler testApp)) (0::nat) () world0) = Inr ()
   \<and> is_canceled (snd (http_ServeHTTP (createRootHandler (as_Handler testApp)) (0::nat) () world0))
        (cancelCtx 0 Background)"
  using createRootHandler_cancels [of world0 "Handler (\<lambda>ctx w r. go_panic (Raised ''boom''))" "0::nat" "()"]
    createRootHandler_cancels [of world0 "as_Handler testApp" "0::nat" "()"]
  by (simp add: Let_def world0_def WithCancel_def go_panic_def as_Handler_def testApp_def Write_def cancel_def)

subsection \<open>A nil terminal handler (C3)\<close>

text \<open>
  Claim C3. \<^verbatim>\<open>Then\<close> with a nil terminal handler is \<^verbatim>\<open>Then\<close> with the adapter around
  \<^verbatim>\<open>http.DefaultServeMux\<close>, and the adapter serves every context alike: it drops it.
\<close>

theorem Then_nil_uses_default_mux:
  "Then hp mux c Handler_nil = Then hp mux c (adaptFinal mux)
   \<and> Handler_ServeHTTP (adaptFinal mux) ctx w r = http_ServeHTTP mux w r"
  by (simp add: Then_def adaptFinal_def as_Handler_def)

subsection \<open>Append builds a new sequence (C4)\<close>

text \<open>
  Claim C4. \<^verbatim>\<open>Append\<close> returns (it never panics) a chain whose sequence is the receiver's
  followed by the new constructors, in storage allocated by this call: no cell of it is a
  cell of the receiver's sequence, the receiver's elements are as before, and no write
  to the new chain's storage changes them.
\<close>

theorem Append_sequence_in_new_storage:
  assumes vc: "valid_slice hp (constructors c)" and vx: "valid_slice hp xs"
  shows "case Append hp c xs of
           (Inl p, hp') \<Rightarrow> False
         | (Inr c', hp') \<Rightarrow>
             elems hp' (constructors c') = elems hp (constructors c) @ elems hp xs
           \<and> (\<forall>(a, j) \<in> storage (constructors c'). next_arr hp \<le> a \<and> a < next_arr hp')
           \<and> storage (constructors c') \<inter> storage (constructors c) = {}
           \<and> elems hp' (constructors c) = elems hp (constructors c)
           \<and> (\<forall>(a, j) \<in> storage (constructors c'). \<forall>v.
                 elems (store_cell hp' a j v) (constructors c) = elems hp (constructors c))"
proof (rule Append_factsE [of hp c xs])
  fix c' hp'
  assume A: "Append hp c xs = (Inr c', hp')"
    and fr: "\<And>b. b < next_arr hp \<Longrightarrow> cells hp' b = cells hp b"
    and st: "\<And>a j. (a, j) \<in> storage (constructors c') \<Longrightarrow> next_arr hp \<le> a \<and> a < next_arr hp'"
    and el: "valid_slice hp (constructors c) \<Longrightarrow> valid_slice hp xs \<Longrightarrow>
       elems hp' (constructors c') = elems hp (constructors c) @ elems hp xs"
  have dis: "storage (constructors c') \<inter> storage (constructors c) = {}"
    using vc st by (intro fresh_disjoint [of hp]) auto
  have same: "elems hp' (constructors c) = elems hp (constructors c)"
    using vc fr by (rule elems_frame)
  have poke: "elems (store_cell hp' a j v) (constructors c) = elems hp (constructors c)"
    if "(a, j) \<in> storage (constructors c')" for a j v
  proof -
    have "(a, j) \<notin> storage (constructors c)" using that dis by auto
    with vc have "elems (store_cell hp' a j v) (constructors c) = elems hp' (constructors c)"
      by (rule elems_store_cell_other)
    with same show ?thesis by simp
  qed
  have fresh: "\<forall>(a, j) \<in> storage (constructors c'). next_arr hp \<le> a \<and> a < next_arr hp'"
    using st by blast
  have pokes: "\<forall>(a, j) \<in> storage (constructors c'). \<forall>v.
                 elems (store_cell hp' a j v) (constructors c) = elems hp (constructors c)"
    using poke by blast
  show ?thesis
    unfolding A using el [OF vc vx] fresh dis same pokes by simp
qed

text \<open>
  \<^verbatim>\<open>TestAppendRespectsImmutability\<close>, on the store the two calls leave.
\<close>

theorem Append_sequence_in_new_storage_witness:
  "valid_slice (snd test_arg) (constructors (fst test_chain))
   \<and> valid_slice (snd test_arg) (fst test_arg)
   \<and> (case Append (snd test_arg) (fst test_chain) (fst test_arg) of
         (Inl p, hp') \<Rightarrow> False
       | (Inr c', hp') \<Rightarrow>
           elems hp' (constructors c') = [tagMiddleware [], tagMiddleware []]
         \<and> storage (constructors c') \<inter> storage (constructors (fst test_chain)) = {})"
proof -
  have v1: "valid_slice (snd test_arg) (constructors (fst test_chain))"
    by (simp add: valid_slice_def test_chain_eval test_arg_eval)
  have v2: "valid_slice (snd test_arg) (fst test_arg)"
    by (simp add: valid_slice_def test_arg_eval)
  show ?thesis
    using v1 v2 Append_sequence_in_new_storage [OF v1 v2]
    by (simp add: test_chain_eval test_arg_eval split: prod.splits sum.splits)
qed

subsection \<open>Append leaves the receiver alone (C5)\<close>

text \<open>
  Claim C5. \<^verbatim>\<open>C.Append(x)\<close> returns and leaves the receiver's \<open>k\<close> constructors as they
  were; the new chain has \<open>k + 1\<close>; the two chains share no cell, so a write to the storage
  of one never shows in the other, and neither does a later \<^verbatim>\<open>Append\<close> on either chain,
  nor a builtin \<^verbatim>\<open>append\<close> to either chain's slice (which may write into spare capacity).
\<close>

theorem Append_leaves_receiver:
  assumes vc: "valid_slice hp (constructors c)" and vx: "valid_slice hp xs" and one: "len xs = 1"
  shows "case Append hp c xs of
           (Inl p, hp') \<Rightarrow> False
         | (Inr c', hp') \<Rightarrow>
             elems hp' (constructors c) = elems hp (constructors c)
           \<and> length (elems hp' (constructors c)) = len (constructors c)
           \<and> length (elems hp' (constructors c')) = len (constructors c) + 1
           \<and> storage (constructors c') \<inter> storage (constructors c) = {}
           \<and> (\<forall>(a, j) \<in> storage (constructors c'). \<forall>v.
                 elems (store_cell hp' a j v) (constructors c) = elems hp' (constructors c))
           \<and> (\<forall>(a, j) \<in> storage (constructors c). \<forall>v.
                 elems (store_cell hp' a j v) (constructors c') = elems hp' (constructors c'))
           \<and> (\<forall>ys. valid_slice hp' ys \<longrightarrow>
                 elems (snd (Append hp' c ys)) (constructors c') = elems hp' (constructors c')
               \<and> elems (snd (Append hp' c' ys)) (constructors c) = elems hp' (constructors c)
               \<and> elems (snd (append_slice hp' (constructors c) ys)) (constructors c')
                   = elems hp' (constructors c')
               \<and> elems (snd (append_slice hp' (constructors c') ys)) (constructors c)
                   = elems hp' (constructors c))"
proof (rule Append_factsE [of hp c xs])
  fix c' hp'
  assume A: "Append hp c xs = (Inr c', hp')"
    and ln: "len (constructors c') = len (constructors c) + len xs"
    and vc': "valid_slice hp' (constructors c')"
    and nx: "next_arr hp \<le> next_arr hp'"
    and fr: "\<And>b. b < next_arr hp \<Longrightarrow> cells hp' b = cells hp b"
    and st: "\<And>a j. (a, j) \<in> storage (constructors c') \<Longrightarrow> next_arr hp \<le> a \<and> a < next_arr hp'"
  have vch: "valid_slice hp' (constructors c)"
    using vc nx by (rule valid_slice_mono)
  have dis: "storage (constructors c') \<inter> storage (constructors c) = {}"
    using vc st by (intro fresh_disjoint [of hp]) auto
  have dis': "storage (constructors c) \<inter> storage (constructors c') = {}"
    using dis by blast
  have c1: "elems hp' (constructors c) = elems hp (constructors c)"
    using vc fr by (rule elems_frame)
  have c2: "length (elems hp' (constructors c)) = len (constructors c)"
    by (rule length_elems)
  have c3: "length (elems hp' (constructors c')) = len (constructors c) + 1"
    using ln one by simp
  have c5: "\<forall>(a, j) \<in> storage (constructors c'). \<forall>v.
      elems (store_cell hp' a j v) (constructors c) = elems hp' (constructors c)"
    using vch dis by (rule store_cell_elsewhere)
  have c6: "\<forall>(a, j) \<in> storage (constructors c). \<forall>v.
      elems (store_cell hp' a j v) (constructors c') = elems hp' (constructors c')"
    using vc' dis' by (rule store_cell_elsewhere)
  have c7: "\<forall>ys. valid_slice hp' ys \<longrightarrow>
                 elems (snd (Append hp' c ys)) (constructors c') = elems hp' (constructors c')
               \<and> elems (snd (Append hp' c' ys)) (constructors c) = elems hp' (constructors c)
               \<and> elems (snd (append_slice hp' (constructors c) ys)) (constructors c')
                   = elems hp' (constructors c')
               \<and> elems (snd (append_slice hp' (constructors c') ys)) (constructors c)
                   = elems hp' (constructors c)"
  proof (intro allI impI conjI)
    fix ys
    show "elems (snd (Append hp' c ys)) (constructors c') = elems hp' (constructors c')"
      using vc' by (rule Append_frame_elems)
    show "elems (snd (Append hp' c' ys)) (constructors c) = elems hp' (constructors c)"
      using vch by (rule Append_frame_elems)
    show "elems (snd (append_slice hp' (constructors c) ys)) (constructors c')
        = elems hp' (constructors c')"
      using vch vc' dis by (rule append_slice_frame_elems)
    show "elems (snd (append_slice hp' (constructors c') ys)) (constructors c)
        = elems hp' (constructors c)"
      using vc' vch dis' by (rule append_slice_frame_elems)
  qed
  from c1 c2 c3 dis c5 c6 c7 show ?thesis
    unfolding A by (simp only: prod.case sum.case)
qed

text \<open>
  \<^verbatim>\<open>TestAppendRespectsImmutability\<close>: the receiver keeps its one constructor, the new
  chain has two.
\<close>

theorem Append_leaves_receiver_witness:
  "valid_slice (snd test_arg) (constructors (fst test_chain))
   \<and> valid_slice (snd test_arg) (fst test_arg)
   \<and> len (fst test_arg) = 1
   \<and> (case Append (snd test_arg) (fst test_chain) (fst test_arg) of
         (Inl p, hp') \<Rightarrow> False
       | (Inr c', hp') \<Rightarrow>
           elems hp' (constructors (fst test_chain)) = [tagMiddleware []]
         \<and> length (elems hp' (constructors (fst test_chain))) = 1
         \<and> length (elems hp' (constructors c')) = 2
         \<and> storage (constructors c') \<inter> storage (constructors (fst test_chain)) = {})"
proof -
  have v1: "valid_slice (snd test_arg) (constructors (fst test_chain))"
    by (simp add: valid_slice_def test_chain_eval test_arg_eval)
  have v2: "valid_slice (snd test_arg) (fst test_arg)"
    by (simp add: valid_slice_def test_arg_eval)
  have v3: "len (fst test_arg) = 1"
    by (simp add: test_arg_eval)
  have e: "elems (snd test_arg) (constructors (fst test_chain)) = [tagMiddleware []]"
    by (simp add: test_chain_eval test_arg_eval)
  have l: "len (constructors (fst test_chain)) = 1"
    by (simp add: test_chain_eval)
  note T = Append_leaves_receiver [OF v1 v2 v3]
  show ?thesis
  proof (cases "Append (snd test_arg) (fst test_chain) (fst test_arg)")
    case (Pair r hp')
    show ?thesis
    proof (cases r)
      case (Inl p)
      with Pair T show ?thesis by simp
    next
      case (Inr c')
      with Pair T have
        "elems hp' (constructors (fst test_chain)) = elems (snd test_arg) (constructors (fst test_chain))"
        "length (elems hp' (constructors (fst test_chain))) = len (constructors (fst test_chain))"
        "length (elems hp' (constructors c')) = len (constructors (fst test_chain)) + 1"
        "storage (constructors c') \<inter> storage (constructors (fst test_chain)) = {}"
        by simp_all
      with Pair Inr v1 v2 v3 e l show ?thesis by simp
    qed
  qed
qed

subsection \<open>New copies its input (C6)\<close>

text \<open>
  Claim C6, as amended. \<^verbatim>\<open>New\<close> returns a chain whose sequence is the input's, in
  storage allocated by this call: it shares no cell with the caller's slice, and no write
  to the caller's backing array changes it. With no constructor, \<^verbatim>\<open>Then(h)\<close> is the
  finalizer applied to \<open>h\<close> for every non-nil \<open>h\<close>; for a nil \<open>h\<close> it is the finalizer applied
  to the adapter around \<^verbatim>\<open>http.DefaultServeMux\<close>, not to nil.
\<close>

theorem New_copies_input:
  assumes vs: "valid_slice hp cs"
  shows "case New hp cs of
           (c, hp') \<Rightarrow>
             elems hp' (constructors c) = elems hp cs
           \<and> (\<forall>(a, j) \<in> storage (constructors c). next_arr hp \<le> a \<and> a < next_arr hp')
           \<and> storage (constructors c) \<inter> storage cs = {}
           \<and> (\<forall>(a, j) \<in> storage cs. \<forall>v.
                 elems (store_cell hp' a j v) (constructors c) = elems hp cs)
           \<and> (len cs = 0 \<longrightarrow>
                 (\<forall>m. Then hp' mux c (Handler m) = call_func (finalize c) (Handler m))
               \<and> Then hp' mux c Handler_nil = call_func (finalize c) (adaptFinal mux))"
proof -
  define c where "c = fst (New hp cs)"
  define hp' where "hp' = snd (New hp cs)"
  have N: "New hp cs = (c, hp')" by (simp add: c_def hp'_def)
  have c1: "elems hp' (constructors c) = elems hp cs"
    unfolding c_def hp'_def by (rule elems_New)
  have st: "\<And>a j. (a, j) \<in> storage (constructors c) \<Longrightarrow> next_arr hp \<le> a \<and> a < next_arr hp'"
    unfolding c_def hp'_def using storage_New by fastforce
  have c2: "\<forall>(a, j) \<in> storage (constructors c). next_arr hp \<le> a \<and> a < next_arr hp'"
    using st by blast
  have c3: "storage (constructors c) \<inter> storage cs = {}"
    using vs st by (intro fresh_disjoint [of hp]) auto
  have vc: "valid_slice hp' (constructors c)"
    unfolding c_def hp'_def by (rule valid_New)
  have "storage cs \<inter> storage (constructors c) = {}" using c3 by blast
  with vc have "\<forall>(a, j) \<in> storage cs. \<forall>v.
      elems (store_cell hp' a j v) (constructors c) = elems hp' (constructors c)"
    by (rule store_cell_elsewhere)
  with c1 have c4: "\<forall>(a, j) \<in> storage cs. \<forall>v.
      elems (store_cell hp' a j v) (constructors c) = elems hp cs"
    by simp
  have c5: "len cs = 0 \<longrightarrow>
                 (\<forall>m. Then hp' mux c (Handler m) = call_func (finalize c) (Handler m))
               \<and> Then hp' mux c Handler_nil = call_func (finalize c) (adaptFinal mux)"
  proof (intro impI)
    assume "len cs = 0"
    then have "len (constructors c) = 0" by (simp add: c_def)
    then show "(\<forall>m. Then hp' mux c (Handler m) = call_func (finalize c) (Handler m))
               \<and> Then hp' mux c Handler_nil = call_func (finalize c) (adaptFinal mux)"
      by (simp add: Then_no_constructors)
  qed
  from c1 c2 c3 c4 c5 show ?thesis
    unfolding N by (simp only: prod.case)
qed

text \<open>
  Claim C6 as stated fails at the nil handler (\<^verbatim>\<open>TestThenTreatsNilAsDefaultServeMux\<close>):
  \<^verbatim>\<open>New().Then(nil)\<close> answers a request with 404, the finalizer applied to nil panics on
  the request.
\<close>

theorem New_empty_Then_nil_counterexample:
  "Then (snd (New heap0 Slice_nil)) (emptyServeMux :: (nat, unit, nat \<Rightarrow> recorder) http_Handler) (fst (New heap0 Slice_nil)) Handler_nil
     \<noteq> call_func (finalize (fst (New heap0 Slice_nil))) Handler_nil
   \<and> (case Then (snd (New heap0 Slice_nil)) (emptyServeMux :: (nat, unit, nat \<Rightarrow> recorder) http_Handler) (fst (New heap0 Slice_nil)) Handler_nil world0 of
        (Inl p, s) \<Rightarrow> False
      | (Inr f, s) \<Rightarrow> fst (http_ServeHTTP f 0 () s) = Inr ()
          \<and> Code (env (snd (http_ServeHTTP f 0 () s)) 0) = 404)
   \<and> (case call_func (finalize (fst (New heap0 Slice_nil))) Handler_nil world0 of
        (Inl p, s) \<Rightarrow> False
      | (Inr g, s) \<Rightarrow> fst (http_ServeHTTP g (0::nat) () s) = Inl NilDereference)"
proof -
  let ?T = "Then (snd (New heap0 Slice_nil)) (emptyServeMux :: (nat, unit, nat \<Rightarrow> recorder) http_Handler)
      (fst (New heap0 Slice_nil)) Handler_nil"
  let ?F = "call_func (finalize (fst (New heap0 Slice_nil))) (Handler_nil :: (nat, unit, nat \<Rightarrow> recorder) Handler)"
  have T: "?T world0 = (Inr (createRootHandler (adaptFinal emptyServeMux)), world0)"
    by (simp add: Then_New_nothing go_return_def)
  have F: "?F world0 = (Inr (createRootHandler Handler_nil), world0)"
    by (simp add: finalize_New call_root_finalizer go_return_def)
  have a: "fst (http_ServeHTTP (createRootHandler (adaptFinal emptyServeMux)) (0::nat) () world0) = Inr ()"
    and b: "Code (env (snd (http_ServeHTTP (createRootHandler (adaptFinal emptyServeMux)) (0::nat) () world0)) 0) = 404"
    by (simp_all add: serve_default_mux)
  have c: "fst (http_ServeHTTP (createRootHandler (Handler_nil :: (nat, unit, nat \<Rightarrow> recorder) Handler))
      (0::nat) () world0) = Inl NilDereference"
    by (rule serve_nil)
  have "?T \<noteq> ?F"
  proof
    assume "?T = ?F"
    then have "?T world0 = ?F world0" by simp
    then have "(Inr (createRootHandler (adaptFinal emptyServeMux)), world0)
        = (Inr (createRootHandler (Handler_nil :: (nat, unit, nat \<Rightarrow> recorder) Handler)) ::
            panic + (nat, unit, nat \<Rightarrow> recorder) http_Handler, world0)"
      unfolding T F .
    then have "createRootHandler (adaptFinal emptyServeMux)
        = createRootHandler (Handler_nil :: (nat, unit, nat \<Rightarrow> recorder) Handler)" by simp
    with a c show False by simp
  qed
  with T F a b c show ?thesis by simp
qed

text \<open>
  \<^verbatim>\<open>New\<close> on the one-element slice of the test, and on no constructor with the test's
  application (\<^verbatim>\<open>TestThenWorksWithNoMiddleware\<close>).
\<close>

theorem New_copies_input_witness:
  "valid_slice (snd test_arg) (fst test_arg)
   \<and> (case New (snd test_arg) (fst test_arg) of
         (c, hp') \<Rightarrow> elems hp' (constructors c) = [tagMiddleware []]
           \<and> storage (constructors c) \<inter> storage (fst test_arg) = {})
   \<and> valid_slice (snd test_arg) Slice_nil \<and> len Slice_nil = 0
   \<and> (case New (snd test_arg) Slice_nil of
         (c, hp') \<Rightarrow> Then hp' emptyServeMux c (as_Handler testApp)
            = call_func (finalize c) (as_Handler testApp))"
proof -
  have v1: "valid_slice (snd test_arg) (fst test_arg)"
    by (simp add: valid_slice_def test_arg_eval)
  have v2: "valid_slice (snd test_arg) Slice_nil"
    by (simp add: valid_slice_def)
  have e: "elems (snd test_arg) (fst test_arg) = [tagMiddleware []]"
    by (simp add: test_arg_eval)
  from New_copies_input [OF v1, where mux=emptyServeMux] e
  have A: "case New (snd test_arg) (fst test_arg) of
         (c, hp') \<Rightarrow> elems hp' (constructors c) = [tagMiddleware []]
           \<and> storage (constructors c) \<inter> storage (fst test_arg) = {}"
    by (simp add: split_beta)
  from New_copies_input [OF v2, where mux=emptyServeMux]
  have B: "case New (snd test_arg) Slice_nil of
         (c, hp') \<Rightarrow> Then hp' emptyServeMux c (as_Handler testApp)
            = call_func (finalize c) (as_Handler testApp)"
    by (simp add: split_beta as_Handler_def)
  from v1 v2 A B show ?thesis by simp
qed

subsection \<open>The finalizer through Append (C7)\<close>

text \<open>
  Claim C7, as amended. The chain \<^verbatim>\<open>Append\<close> returns always has the finalizer that
  \<^verbatim>\<open>New\<close> installs (\<^verbatim>\<open>createRootHandler\<close>), whatever the receiver's finalizer is: it is
  the finalizer of the receiver whenever the receiver's is that one, as for every chain
  built by \<^verbatim>\<open>New\<close> or \<^verbatim>\<open>Append\<close>. \<^verbatim>\<open>Append\<close> goes through \<^verbatim>\<open>New\<close> and does not
  copy the receiver's field.
\<close>

theorem Append_installs_root_finalizer:
  "case Append hp c xs of
     (Inl p, hp') \<Rightarrow> False
   | (Inr c', hp') \<Rightarrow>
       finalize c' = root_finalizer
     \<and> finalize c' = finalize (fst (New hp xs))
     \<and> (finalize c = root_finalizer \<longrightarrow> finalize c' = finalize c)"
proof (rule Append_factsE [of hp c xs])
  fix c' hp'
  assume "Append hp c xs = (Inr c', hp')" and "finalize c' = root_finalizer"
  then show ?thesis by (simp add: finalize_New)
qed

text \<open>
  Claim C7 as stated fails for the zero value \<^verbatim>\<open>Chain{}\<close>, whose finalizer is nil: the
  chain \<^verbatim>\<open>Chain{}.Append()\<close> returns has the root finalizer.
\<close>

theorem Append_zero_Chain_finalizer_counterexample:
  "(case Append heap0 (zero_Chain :: (nat, unit, nat \<Rightarrow> recorder) Chain) Slice_nil of
      (Inl p, hp') \<Rightarrow> False
    | (Inr c', hp') \<Rightarrow> finalize c' \<noteq> finalize (zero_Chain :: (nat, unit, nat \<Rightarrow> recorder) Chain))"
proof -
  obtain r hp' where A: "Append heap0 (zero_Chain :: (nat, unit, nat \<Rightarrow> recorder) Chain) Slice_nil = (r, hp')"
    by (cases "Append heap0 (zero_Chain :: (nat, unit, nat \<Rightarrow> recorder) Chain) Slice_nil")
  have "fst (Append heap0 (zero_Chain :: (nat, unit, nat \<Rightarrow> recorder) Chain) Slice_nil)
      = Inr \<lparr>constructors = Slice_nil, finalize = root_finalizer\<rparr>"
    by (rule Append_zero_Chain)
  with A have "r = Inr \<lparr>constructors = Slice_nil, finalize = root_finalizer\<rparr>" by simp
  with A show ?thesis by (simp add: zero_Chain_def root_finalizer_def)
qed

theorem Append_installs_root_finalizer_witness:
  "finalize (fst test_chain) = root_finalizer
   \<and> (case Append (snd test_arg) (fst test_chain) (fst test_arg) of
         (Inl p, hp') \<Rightarrow> False
       | (Inr c', hp') \<Rightarrow> finalize c' = finalize (fst test_chain))"
  using Append_installs_root_finalizer [where hp="snd test_arg" and c="fst test_chain" and xs="fst test_arg"]
  by (simp add: test_chain_eval split: prod.splits sum.splits)

subsection \<open>ThenFunc (C8)\<close>

text \<open>
  Claim C8. \<^verbatim>\<open>ThenFunc(fn)\<close> is \<^verbatim>\<open>Then(HandlerFunc(fn))\<close> for a non-nil function, and
  \<^verbatim>\<open>ThenFunc(nil)\<close> is \<^verbatim>\<open>Then(nil)\<close>.
\<close>

theorem ThenFunc_is_Then:
  "ThenFunc hp mux c (HandlerFunc f) = Then hp mux c (as_Handler (HandlerFunc f))
   \<and> ThenFunc hp mux c HandlerFunc_nil = Then hp mux c Handler_nil"
  by (simp add: ThenFunc_def)

subsection \<open>The context handed to the chain (C9)\<close>

text \<open>
  Claim C9. A handler that \<^verbatim>\<open>Then\<close> or \<^verbatim>\<open>ThenFunc\<close> returned (for a chain a caller can
  hold: the zero value or one built by \<^verbatim>\<open>New\<close>) passes, on every invocation, a context to
  the outermost wrapped handler (what the chain's constructors made of the terminal
  handler) that is a new child of the background context, is not cancelled at that moment
  and carries no value, whatever the world it runs in holds.
\<close>

theorem Then_context_is_fresh:
  assumes fin: "finalize c = None \<or> finalize c = root_finalizer"
    and res: "Then hp mux c h s0 = (Inr f, s0') \<or> ThenFunc hp mux c fn s0 = (Inr f, s0')"
  shows "\<exists>outer final.
           compose (elems hp (constructors c)) final s0 = (Inr outer, s0')
         \<and> (\<forall>w r s.
              (let ctx = cancelCtx (next_ctx s) Background;
                   s1 = s\<lparr>next_ctx := Suc (next_ctx s), canceled := (canceled s)(next_ctx s := False)\<rparr>
               in http_ServeHTTP f w r s = go_defer (cancel (next_ctx s)) (Handler_ServeHTTP outer ctx w r) s1
                  \<and> \<not> is_canceled s1 ctx
                  \<and> (\<forall>k. Value ctx k = None)))"
proof -
  have "\<exists>h'. Then hp mux c h' s0 = (Inr f, s0')"
    using res by (auto simp: ThenFunc_def split: HandlerFunc.splits)
  then obtain h' where t: "Then hp mux c h' s0 = (Inr f, s0')" ..
  define final where "final = (case h' of Handler_nil \<Rightarrow> adaptFinal mux | Handler m \<Rightarrow> h')"
  have t': "go_bind (compose (elems hp (constructors c)) final) (call_func (finalize c)) s0 = (Inr f, s0')"
    using t by (simp add: Then_eq_compose final_def)
  have "\<exists>outer. compose (elems hp (constructors c)) final s0 = (Inr outer, s0')
      \<and> f = createRootHandler outer"
    using t' fin
    by (auto simp: go_bind_def call_func_def go_panic_def go_return_def
        root_finalizer_def split: prod.splits sum.splits)
  then obtain outer where o: "compose (elems hp (constructors c)) final s0 = (Inr outer, s0')"
    and f: "f = createRootHandler outer" by blast
  have "\<forall>w r s.
              (let ctx = cancelCtx (next_ctx s) Background;
                   s1 = s\<lparr>next_ctx := Suc (next_ctx s), canceled := (canceled s)(next_ctx s := False)\<rparr>
               in http_ServeHTTP f w r s = go_defer (cancel (next_ctx s)) (Handler_ServeHTTP outer ctx w r) s1
                  \<and> \<not> is_canceled s1 ctx
                  \<and> (\<forall>k. Value ctx k = None))"
    by (simp add: f serve_root Let_def)
  with o show ?thesis by blast
qed

text \<open>
  The one-constructor chain of the test, composed with the test's application.
\<close>

theorem Then_context_is_fresh_witness:
  "finalize (fst test_chain) = root_finalizer
   \<and> (\<exists>f s'. Then (snd test_chain) emptyServeMux (fst test_chain) (as_Handler testApp) world0 = (Inr f, s')
        \<and> (\<exists>outer. (\<exists>final. compose (elems (snd test_chain) (constructors (fst test_chain))) final world0 = (Inr outer, s'))
            \<and> (\<forall>w r s.
              http_ServeHTTP f w r s =
                go_defer (cancel (next_ctx s))
                  (Handler_ServeHTTP outer (cancelCtx (next_ctx s) Background) w r)
                  (s\<lparr>next_ctx := Suc (next_ctx s), canceled := (canceled s)(next_ctx s := False)\<rparr>)
            \<and> \<not> is_canceled
                  (s\<lparr>next_ctx := Suc (next_ctx s), canceled := (canceled s)(next_ctx s := False)\<rparr>)
                  (cancelCtx (next_ctx s) Background)
            \<and> (\<forall>k. Value (cancelCtx (next_ctx s) Background) k = None))))"
proof -
  have f: "finalize (fst test_chain) = root_finalizer" by (rule test_chain_eval)
  have e: "elems (snd test_chain) (constructors (fst test_chain)) = [tagMiddleware []]"
    by (simp add: test_chain_eval)
  obtain g s' where T: "Then (snd test_chain) emptyServeMux (fst test_chain) (as_Handler testApp) world0 = (Inr g, s')"
    by (simp add: Then_eq_compose e f call_root_finalizer as_Handler_def go_bind_def go_return_def
        call_func_def tagMiddleware_def)
  from f have fin: "finalize (fst test_chain) = None \<or> finalize (fst test_chain) = root_finalizer"
    by simp
  from T have res: "Then (snd test_chain) emptyServeMux (fst test_chain) (as_Handler testApp) world0 = (Inr g, s')
      \<or> ThenFunc (snd test_chain) emptyServeMux (fst test_chain) testApp world0 = (Inr g, s')"
    by simp
  from Then_context_is_fresh [OF fin res]
  have "\<exists>outer. (\<exists>final. compose (elems (snd test_chain) (constructors (fst test_chain))) final world0 = (Inr outer, s'))
            \<and> (\<forall>w r s.
              http_ServeHTTP g w r s =
                go_defer (cancel (next_ctx s))
                  (Handler_ServeHTTP outer (cancelCtx (next_ctx s) Background) w r)
                  (s\<lparr>next_ctx := Suc (next_ctx s), canceled := (canceled s)(next_ctx s := False)\<rparr>)
            \<and> \<not> is_canceled
                  (s\<lparr>next_ctx := Suc (next_ctx s), canceled := (canceled s)(next_ctx s := False)\<rparr>)
                  (cancelCtx (next_ctx s) Background)
            \<and> (\<forall>k. Value (cancelCtx (next_ctx s) Background) k = None))"
    by (simp add: Let_def)
  with f T show ?thesis by blast
qed

subsection \<open>Append of nothing (C10)\<close>

text \<open>
  Claim C10, as amended. \<^verbatim>\<open>Append\<close> with no constructor returns a chain with the same
  number of constructors and the same elements in the same order as the receiver's, in
  storage allocated by this call; and for a receiver whose finalizer is the one \<^verbatim>\<open>New\<close>
  installs (every chain built by \<^verbatim>\<open>New\<close> or \<^verbatim>\<open>Append\<close>), \<^verbatim>\<open>Then\<close> on the result is
  \<^verbatim>\<open>Then\<close> on the receiver, for every terminal handler, nil included.
\<close>

theorem Append_nothing:
  assumes vc: "valid_slice hp (constructors c)" and vx: "valid_slice hp xs" and none: "len xs = 0"
  shows "case Append hp c xs of
           (Inl p, hp') \<Rightarrow> False
         | (Inr c', hp') \<Rightarrow>
             len (constructors c') = len (constructors c)
           \<and> elems hp' (constructors c') = elems hp (constructors c)
           \<and> (\<forall>(a, j) \<in> storage (constructors c'). next_arr hp \<le> a \<and> a < next_arr hp')
           \<and> storage (constructors c') \<inter> storage (constructors c) = {}
           \<and> (finalize c = root_finalizer \<longrightarrow>
                 (\<forall>h. Then hp' mux c' h = Then hp' mux c h \<and> Then hp' mux c h = Then hp mux c h))"
proof (rule Append_factsE [of hp c xs])
  fix c' hp'
  assume A: "Append hp c xs = (Inr c', hp')"
    and fin: "finalize c' = root_finalizer"
    and ln: "len (constructors c') = len (constructors c) + len xs"
    and fr: "\<And>b. b < next_arr hp \<Longrightarrow> cells hp' b = cells hp b"
    and st: "\<And>a j. (a, j) \<in> storage (constructors c') \<Longrightarrow> next_arr hp \<le> a \<and> a < next_arr hp'"
    and el: "valid_slice hp (constructors c) \<Longrightarrow> valid_slice hp xs \<Longrightarrow>
       elems hp' (constructors c') = elems hp (constructors c) @ elems hp xs"
  have "length (elems hp xs) = 0" using none by (simp only: length_elems)
  then have nil: "elems hp xs = []" by (simp only: length_0_conv)
  have c1: "len (constructors c') = len (constructors c)" using ln none by simp
  have c2: "elems hp' (constructors c') = elems hp (constructors c)"
    using el [OF vc vx] nil by simp
  have c3: "\<forall>(a, j) \<in> storage (constructors c'). next_arr hp \<le> a \<and> a < next_arr hp'"
    using st by blast
  have c4: "storage (constructors c') \<inter> storage (constructors c) = {}"
    using vc st by (intro fresh_disjoint [of hp]) auto
  have same: "elems hp' (constructors c) = elems hp (constructors c)"
    using vc fr by (rule elems_frame)
  have c5: "finalize c = root_finalizer \<longrightarrow>
      (\<forall>h. Then hp' mux c' h = Then hp' mux c h \<and> Then hp' mux c h = Then hp mux c h)"
    using fin c2 same by (simp add: Then_eq_compose)
  from c1 c2 c3 c4 c5 show ?thesis
    unfolding A by (simp only: prod.case sum.case)
qed

text \<open>
  Claim C10 as stated fails for the zero value \<^verbatim>\<open>Chain{}\<close>: \<^verbatim>\<open>Chain{}.Then(h)\<close> panics on
  its nil finalizer, \<^verbatim>\<open>Chain{}.Append().Then(h)\<close> returns the root handler around \<open>h\<close>.
\<close>

theorem Append_nothing_zero_Chain_counterexample:
  "(case Append heap0 (zero_Chain :: (nat, unit, nat \<Rightarrow> recorder) Chain) Slice_nil of
      (Inl p, hp') \<Rightarrow> False
    | (Inr c', hp') \<Rightarrow>
        Then hp' emptyServeMux c' (as_Handler testApp) \<noteq> Then hp' emptyServeMux zero_Chain (as_Handler testApp)
      \<and> fst (Then hp' emptyServeMux zero_Chain (as_Handler testApp) world0) = Inl NilDereference
      \<and> fst (Then hp' emptyServeMux c' (as_Handler testApp) world0)
           = Inr (createRootHandler (as_Handler testApp)))"
proof -
  obtain r hp' where A: "Append heap0 (zero_Chain :: (nat, unit, nat \<Rightarrow> recorder) Chain) Slice_nil = (r, hp')"
    by (cases "Append heap0 (zero_Chain :: (nat, unit, nat \<Rightarrow> recorder) Chain) Slice_nil")
  have "fst (Append heap0 (zero_Chain :: (nat, unit, nat \<Rightarrow> recorder) Chain) Slice_nil)
      = Inr \<lparr>constructors = Slice_nil, finalize = root_finalizer\<rparr>"
    by (rule Append_zero_Chain)
  with A have r: "r = Inr \<lparr>constructors = Slice_nil, finalize = root_finalizer\<rparr>" by simp
  let ?c = "\<lparr>constructors = Slice_nil, finalize = root_finalizer\<rparr> :: (nat, unit, nat \<Rightarrow> recorder) Chain"
  have a: "fst (Then hp' emptyServeMux zero_Chain (as_Handler testApp) world0) = Inl NilDereference"
    by (simp add: Then_zero_Chain go_panic_def)
  have b: "fst (Then hp' emptyServeMux ?c (as_Handler testApp) world0)
      = Inr (createRootHandler (as_Handler testApp))"
    by (simp add: as_Handler_def Then_empty_root go_return_def)
  have "Then hp' emptyServeMux ?c (as_Handler testApp)
      \<noteq> Then hp' emptyServeMux zero_Chain (as_Handler testApp)"
  proof
    assume "Then hp' emptyServeMux ?c (as_Handler testApp)
      = Then hp' emptyServeMux zero_Chain (as_Handler testApp)"
    then have "fst (Then hp' emptyServeMux ?c (as_Handler testApp) world0)
      = fst (Then hp' emptyServeMux zero_Chain (as_Handler testApp) world0)" by simp
    then show False unfolding a b by simp
  qed
  with a b show ?thesis unfolding A r by (simp only: prod.case sum.case) simp
qed

text \<open>
  \<^verbatim>\<open>chain.Append()\<close> on the one-constructor chain of the test.
\<close>

theorem Append_nothing_witness:
  "valid_slice (snd test_chain) (constructors (fst test_chain))
   \<and> valid_slice (snd test_chain) Slice_nil \<and> len Slice_nil = 0
   \<and> finalize (fst test_chain) = root_finalizer
   \<and> (case Append (snd test_chain) (fst test_chain) Slice_nil of
         (Inl p, hp') \<Rightarrow> False
       | (Inr c', hp') \<Rightarrow>
           elems hp' (constructors c') = [tagMiddleware []]
         \<and> Then hp' emptyServeMux c' (as_Handler testApp)
             = Then hp' emptyServeMux (fst test_chain) (as_Handler testApp))"
proof -
  have v1: "valid_slice (snd test_chain) (constructors (fst test_chain))"
    by (simp add: valid_slice_def test_chain_eval)
  have v2: "valid_slice (snd test_chain) Slice_nil"
    by (simp add: valid_slice_def)
  have v3: "len Slice_nil = 0" by simp
  have f: "finalize (fst test_chain) = root_finalizer" by (rule test_chain_eval)
  have e: "elems (snd test_chain) (constructors (fst test_chain)) = [tagMiddleware []]"
    by (simp add: test_chain_eval)
  note T = Append_nothing [OF v1 v2 v3, where mux=emptyServeMux]
  show ?thesis
  proof (cases "Append (snd test_chain) (fst test_chain) Slice_nil")
    case (Pair r hp')
    show ?thesis
    proof (cases r)
      case (Inl p)
      with Pair T show ?thesis by simp
    next
      case (Inr c')
      with Pair T f have
        "elems hp' (constructors c') = elems (snd test_chain) (constructors (fst test_chain))"
        "Then hp' emptyServeMux c' (as_Handler testApp)
             = Then hp' emptyServeMux (fst test_chain) (as_Handler testApp)"
        by simp_all
      with Pair Inr v1 v2 f e show ?thesis by simp
    qed
  qed
qed

end
